theory Spec2Isabelle
  imports Complex_Main "HOL-Library.Multiset" "HOL-Library.Log_Nat"
begin

section \<open>Python strings\<close>

text \<open>
  Python text is modelled as \<^typ>\<open>string\<close>.  Only concatenation, \<open>str\<close> of an integer
  (inside the f-strings) and \<open>str.join\<close> are used by the code under study.
\<close>

definition digit_chars :: string where
  "digit_chars = ''0123456789''"

fun str_nat :: "nat \<Rightarrow> string" where
  "str_nat n =
     (if n < 10 then [digit_chars ! n]
      else str_nat (n div 10) @ [digit_chars ! (n mod 10)])"

declare str_nat.simps [simp del]

definition str_int :: "int \<Rightarrow> string" where
  "str_int i = (if i < 0 then CHR ''-'' # str_nat (nat (- i)) else str_nat (nat i))"

text \<open>\<open>sep.join(xs)\<close>\<close>

fun join :: "string \<Rightarrow> string list \<Rightarrow> string" where
  "join sep [] = []"
| "join sep [x] = x"
| "join sep (x # y # ys) = x @ sep @ join sep (y # ys)"

section \<open>The processing task\<close>

text \<open>
  The attributes of \<open>ProcessingTask\<close> set by \<open>__init__\<close> (the client object is the
  environment, modelled below).  Python integers are unbounded: \<^typ>\<open>int\<close>.
\<close>

record ProcessingTask =
  images :: "string list"
  system_prompt :: string
  user_prompt :: string
  parallelism :: int
  max_retries :: int
  output_format :: string
  separator :: string

definition ProcessingTask_init ::
  "string list \<Rightarrow> string \<Rightarrow> string \<Rightarrow> int \<Rightarrow> int \<Rightarrow> string \<Rightarrow> ProcessingTask" where
  "ProcessingTask_init imgs sys_p user_p par retr fmt =
     \<lparr> images = imgs, system_prompt = sys_p, user_prompt = user_p,
       parallelism = par, max_retries = retr, output_format = fmt,
       separator = [CHR 0x0A, CHR 0x0A] \<rparr>"

section \<open>The worker: \<open>process_image\<close>\<close>

text \<open>
  What one pass through the \<open>try\<close> block meets: \<open>PDFProcessor.load_image\<close> raises,
  the client's \<open>process_image\<close> raises, or the client returns \<open>(success, response)\<close>.
  An exception is represented by its \<open>str(e)\<close>.  The environment of one worker is the
  sequence of these behaviours, one per pass.
\<close>

datatype attempt = LoadRaises string | CallRaises string | Returns bool string

text \<open>The effects of a worker, in program order.\<close>

datatype effect =
    Load string
  | Transcribe string string string
  | Emit int string
  | Msleep int

text \<open>The \<open>return\<close> statement through which the worker leaves (source lines 112, 126, 140, 143).\<close>

datatype exit = ReturnSuccess | ReturnFailed | ReturnRaised | ReturnFallback

type_synonym worker_run = "exit \<times> (bool \<times> string) \<times> effect list"

definition after :: "effect list \<Rightarrow> worker_run \<Rightarrow> worker_run" where
  "after es r = (fst r, fst (snd r), es @ snd (snd r))"

definition retrying_msg :: "nat \<Rightarrow> nat \<Rightarrow> int \<Rightarrow> string" where
  "retrying_msg page_num retries maxr =
     ''Retrying page '' @ str_nat page_num @ '' (attempt '' @ str_nat retries @ ''/''
       @ str_int maxr @ '')...''"

definition error_msg :: "nat \<Rightarrow> nat \<Rightarrow> int \<Rightarrow> string" where
  "error_msg page_num retries maxr =
     ''Error on page '' @ str_nat page_num @ '', retrying (attempt '' @ str_nat retries @ ''/''
       @ str_int maxr @ '')...''"

text \<open>
  The \<open>while retries <= self.max_retries\<close> loop, entered with the current value of
  \<open>retries\<close>; \<open>env 0\<close> is the behaviour met by the pass about to run.
\<close>

function process_loop ::
  "ProcessingTask \<Rightarrow> (nat \<Rightarrow> attempt) \<Rightarrow> string \<Rightarrow> nat \<Rightarrow> nat \<Rightarrow> worker_run" where
  "process_loop T env image_path idx retries =
     (let page_num = idx + 1 in
      if int retries \<le> max_retries T then
        (case env 0 of
           Returns success response \<Rightarrow>
             (let called = [Load image_path,
                            Transcribe image_path (system_prompt T) (user_prompt T)] in
              if success then (ReturnSuccess, (True, response), called)
              else
                (let retries' = retries + 1 in
                 if int retries' \<le> max_retries T then
                   (let wait_time = 2 ^ retries' in
                    after (called @
                           [Emit (- 1) (retrying_msg page_num retries' (max_retries T)),
                            Msleep (wait_time * 1000)])
                      (process_loop T (\<lambda>n. env (Suc n)) image_path idx retries'))
                 else (ReturnFailed, (False, response), called)))
         | LoadRaises e \<Rightarrow>
             (let retries' = retries + 1 in
              if int retries' \<le> max_retries T then
                (let wait_time = 2 ^ retries' in
                 after [Load image_path,
                        Emit (- 1) (error_msg page_num retries' (max_retries T)),
                        Msleep (wait_time * 1000)]
                   (process_loop T (\<lambda>n. env (Suc n)) image_path idx retries'))
              else (ReturnRaised, (False, e), [Load image_path]))
         | CallRaises e \<Rightarrow>
             (let retries' = retries + 1 in
              if int retries' \<le> max_retries T then
                (let wait_time = 2 ^ retries' in
                 after [Load image_path,
                        Transcribe image_path (system_prompt T) (user_prompt T),
                        Emit (- 1) (error_msg page_num retries' (max_retries T)),
                        Msleep (wait_time * 1000)]
                   (process_loop T (\<lambda>n. env (Suc n)) image_path idx retries'))
              else (ReturnRaised, (False, e),
                    [Load image_path,
                     Transcribe image_path (system_prompt T) (user_prompt T)])))
      else (ReturnFallback, (False, ''Maximum retries exceeded''), []))"
  by pat_completeness auto
termination
  by (relation "measure (\<lambda>(T, env, image_path, idx, retries). nat (max_retries T + 1 - int retries))")
     auto

declare process_loop.simps [simp del]

definition process_image_run ::
  "ProcessingTask \<Rightarrow> (nat \<Rightarrow> attempt) \<Rightarrow> string \<Rightarrow> nat \<Rightarrow> worker_run" where
  "process_image_run T env image_path idx = process_loop T env image_path idx 0"

definition process_image ::
  "ProcessingTask \<Rightarrow> (nat \<Rightarrow> attempt) \<Rightarrow> string \<Rightarrow> nat \<Rightarrow> bool \<times> string" where
  "process_image T env image_path idx = fst (snd (process_image_run T env image_path idx))"


subsection \<open>Observations on a worker run\<close>

definition exit_of :: "worker_run \<Rightarrow> exit" where
  "exit_of r = fst r"

definition outcome_of :: "worker_run \<Rightarrow> bool \<times> string" where
  "outcome_of r = fst (snd r)"

definition effects_of :: "worker_run \<Rightarrow> effect list" where
  "effects_of r = snd (snd r)"

fun is_call :: "effect \<Rightarrow> bool" where
  "is_call (Transcribe p s u) = True"
| "is_call e = False"

fun is_backoff :: "effect \<Rightarrow> bool" where
  "is_backoff (Emit v m) = True"
| "is_backoff (Msleep w) = True"
| "is_backoff e = False"

text \<open>The arguments of the \<open>msleep\<close> calls (milliseconds) and of the \<open>emit\<close> calls.\<close>

fun waits :: "effect list \<Rightarrow> int list" where
  "waits [] = []"
| "waits (Msleep w # es) = w # waits es"
| "waits (e # es) = waits es"

fun emits :: "effect list \<Rightarrow> (int \<times> string) list" where
  "emits [] = []"
| "emits (Emit v m # es) = (v, m) # emits es"
| "emits (e # es) = emits es"

text \<open>
  A pass fails when it raises or reports \<open>success = False\<close>; the transcriber call of a
  pass fails when the call was reached and raised or reported failure.
\<close>

fun failed :: "attempt \<Rightarrow> bool" where
  "failed (Returns success response) = (\<not> success)"
| "failed (LoadRaises e) = True"
| "failed (CallRaises e) = True"

fun call_failed :: "attempt \<Rightarrow> bool" where
  "call_failed (Returns success response) = (\<not> success)"
| "call_failed (LoadRaises e) = False"
| "call_failed (CallRaises e) = True"

text \<open>The response text, or \<open>str(e)\<close> of the exception.\<close>

fun text_of :: "attempt \<Rightarrow> string" where
  "text_of (Returns success response) = response"
| "text_of (LoadRaises e) = e"
| "text_of (CallRaises e) = e"

text \<open>The notification sent before the wait that follows a failed pass.\<close>

fun notice :: "attempt \<Rightarrow> nat \<Rightarrow> nat \<Rightarrow> int \<Rightarrow> string" where
  "notice (Returns success response) page_num retries maxr = retrying_msg page_num retries maxr"
| "notice (LoadRaises e) page_num retries maxr = error_msg page_num retries maxr"
| "notice (CallRaises e) page_num retries maxr = error_msg page_num retries maxr"

text \<open>The calls made by one pass before it is decided.\<close>

fun attempt_effects :: "ProcessingTask \<Rightarrow> string \<Rightarrow> attempt \<Rightarrow> effect list" where
  "attempt_effects T p (LoadRaises e) = [Load p]"
| "attempt_effects T p a = [Load p, Transcribe p (system_prompt T) (user_prompt T)]"

text \<open>The same behaviour with every raised exception turned into a reported failure of the same text.\<close>

fun as_reported :: "attempt \<Rightarrow> attempt" where
  "as_reported (Returns success response) = Returns success response"
| "as_reported (LoadRaises e) = Returns False e"
| "as_reported (CallRaises e) = Returns False e"


definition backoff_steps ::
  "ProcessingTask \<Rightarrow> (nat \<Rightarrow> attempt) \<Rightarrow> nat \<Rightarrow> nat \<Rightarrow> nat \<Rightarrow> effect list" where
  "backoff_steps T env idx r n =
     concat (map (\<lambda>k. [Emit (- 1) (notice (env (k - r - 1)) (idx + 1) k (max_retries T)),
                        Msleep (2 ^ k * 1000)]) [r + 1 ..< n + 1])"

section \<open>The worker with exceptions of any class\<close>

text \<open>
  \<open>except Exception as e\<close> catches the instances of \<open>Exception\<close> and lets every other
  exception pass (\<open>KeyboardInterrupt\<close>, \<open>SystemExit\<close>, \<open>GeneratorExit\<close> and whatever
  else derives from \<open>BaseException\<close> alone).  Here a raised exception carries its class
  as far as the handler tells it apart, and its \<open>str(e)\<close>; a worker either returns its
  tuple or lets an exception out, which the future then holds and \<open>future.result()\<close>
  raises again.  \<open>emit\<close> and \<open>msleep\<close> are calls into Qt and are taken to return.
\<close>

datatype raised = Exception string | BaseExceptionOnly string

datatype met = LoadRaised raised | CallRaised raised | Replied bool string











text \<open>
  A pass whose exception, if any, is an instance of \<open>Exception\<close>, and the same pass as a
  behaviour of the worker above.
\<close>

fun caught :: "met \<Rightarrow> bool" where
  "caught (LoadRaised (Exception e)) = True"
| "caught (CallRaised (Exception e)) = True"
| "caught (Replied success response) = True"
| "caught m = False"

fun str_raised :: "raised \<Rightarrow> string" where
  "str_raised (Exception e) = e"
| "str_raised (BaseExceptionOnly b) = b"

fun as_attempt :: "met \<Rightarrow> attempt" where
  "as_attempt (LoadRaised x) = LoadRaises (str_raised x)"
| "as_attempt (CallRaised x) = CallRaises (str_raised x)"
| "as_attempt (Replied success response) = Returns success response"




text \<open>The same pass with a raised exception turned into a reported failure of the same text.\<close>

fun reported :: "met \<Rightarrow> met" where
  "reported (LoadRaised x) = Replied False (str_raised x)"
| "reported (CallRaised x) = Replied False (str_raised x)"
| "reported (Replied success response) = Replied success response"


section \<open>Python floats in the progress computation\<close>

text \<open>
  \<open>(i + 1) / len(self.images) * 100\<close> is a true division of two integers followed by a
  float multiplication; each yields the IEEE 754 binary64 number nearest to the exact
  result, ties to even.  A float is modelled by the rational it denotes.  The values met
  here lie between 0 and 100, so overflow does not arise; the subnormal range is covered
  by the lower bound on the exponent.
\<close>

definition round_half_even :: "rat \<Rightarrow> int" where
  "round_half_even x =
     (let f = \<lfloor>x\<rfloor>; d = x - of_int f
      in if d < 1 / 2 then f else if 1 / 2 < d then f + 1 else if even f then f else f + 1)"

text \<open>\<open>\<lfloor>log\<^sub>2 x\<rfloor>\<close> for positive \<open>x\<close>.\<close>

definition ilog2 :: "rat \<Rightarrow> int" where
  "ilog2 x = (if 1 \<le> x then bitlen \<lfloor>x\<rfloor> - 1 else - bitlen (\<lceil>1 / x\<rceil> - 1))"

definition binary64 :: "rat \<Rightarrow> rat" where
  "binary64 x =
     (if x = 0 then 0
      else let e = max (ilog2 \<bar>x\<bar>) (- 1022); ulp = 2 powi (e - 52)
           in sgn x * of_int (round_half_even (\<bar>x\<bar> / ulp)) * ulp)"

definition true_div :: "nat \<Rightarrow> nat \<Rightarrow> rat" where
  "true_div a b = binary64 (of_nat a / of_nat b)"

definition float_mul :: "rat \<Rightarrow> rat \<Rightarrow> rat" where
  "float_mul x y = binary64 (x * y)"

text \<open>\<open>int(x)\<close> truncates towards zero.\<close>

definition int_of_float :: "rat \<Rightarrow> int" where
  "int_of_float x = (if 0 \<le> x then \<lfloor>x\<rfloor> else \<lceil>x\<rceil>)"

text \<open>\<open>int(k / n * 100)\<close>; the division raises \<open>ZeroDivisionError\<close> when \<open>n = 0\<close>.\<close>

definition percent :: "nat \<Rightarrow> nat \<Rightarrow> int" where
  "percent k n = int_of_float (float_mul (true_div k n) 100)"

definition progress_percent :: "nat \<Rightarrow> nat \<Rightarrow> string + int" where
  "progress_percent k n = (if n = 0 then Inl ''division by zero'' else Inr (percent k n))"

text \<open>
  For comparison, the value in the words of the specification, \<open>round(k / n * 100)\<close>:
  the integer nearest to the exact quotient.
\<close>

definition rounded_percent :: "nat \<Rightarrow> nat \<Rightarrow> int" where
  "rounded_percent k n = round (of_nat k / of_nat n * 100 :: rat)"

section \<open>The formatter: \<open>format_results\<close>\<close>

text \<open>An entry of \<open>results\<close>: \<open>(idx, success, text, page_num)\<close>.\<close>

type_synonym result = "nat \<times> bool \<times> string \<times> nat"

definition error_text :: "string \<Rightarrow> nat \<Rightarrow> string \<Rightarrow> string" where
  "error_text fmt page_num text =
     (if fmt = ''md''
      then ''> **Error processing page '' @ str_nat page_num
             @ '':**\<newline>>\<newline>> ```json\<newline>> '' @ text @ ''\<newline>> ```''
      else ''--- Error processing page '' @ str_nat page_num
             @ '' ---\<newline>\<newline>'' @ text @ ''\<newline>\<newline>---'')"

text \<open>The \<open>for\<close> loop over \<open>results\<close>, appending to \<open>output\<close>.\<close>

fun format_loop :: "ProcessingTask \<Rightarrow> result list \<Rightarrow> string list \<Rightarrow> string list" where
  "format_loop T [] output = output"
| "format_loop T ((idx, success, text, page_num) # results) output =
     format_loop T results
       (output @ [if success then text else error_text (output_format T) page_num text])"

definition format_results :: "ProcessingTask \<Rightarrow> result list \<Rightarrow> string" where
  "format_results T results = join (separator T) (format_loop T results [])"

section \<open>The scheduler: \<open>run\<close>\<close>

text \<open>
  The environment of a batch gives, for the worker of each index, the behaviours its passes
  meet.  \<open>future.result()\<close> returns what the submitted call returned, or re-raises what it
  raised.  The behaviours of type \<^typ>\<open>attempt\<close> raise instances of \<open>Exception\<close> only, which
  the handler of \<open>process_image\<close> catches, so the call returns and the future holds its
  value; the section on exceptions of any class has the worker that can let one out.
\<close>

type_synonym world = "nat \<Rightarrow> nat \<Rightarrow> attempt"

definition future_result :: "ProcessingTask \<Rightarrow> world \<Rightarrow> nat \<Rightarrow> string + bool \<times> string" where
  "future_result T world idx = Inr (process_image T (world idx) (images T ! idx) idx)"

definition processed_msg :: "nat \<Rightarrow> nat \<Rightarrow> string" where
  "processed_msg page_num len = ''Processed page '' @ str_nat page_num @ ''/'' @ str_nat len"

text \<open>
  One iteration of \<open>for i, future in enumerate(as_completed(future_to_image))\<close>, on the
  list \<open>results\<close> and the progress notifications sent so far.  An exception raised after
  the first \<open>append\<close> reaches the handler, which appends once more.
\<close>

definition collect_one ::
  "ProcessingTask \<Rightarrow> world \<Rightarrow> nat \<Rightarrow> nat \<Rightarrow> result list \<times> (int \<times> string) list
     \<Rightarrow> result list \<times> (int \<times> string) list" where
  "collect_one T world i idx st =
     (let results = fst st; emitted = snd st; page_num = idx + 1 in
      case future_result T world idx of
        Inl e \<Rightarrow> (results @ [(idx, False, e, page_num)], emitted)
      | Inr (success, text) \<Rightarrow>
          (let results' = results @ [(idx, success, text, page_num)] in
           case progress_percent (i + 1) (length (images T)) of
             Inl e \<Rightarrow> (results' @ [(idx, False, e, page_num)], emitted)
           | Inr progress \<Rightarrow>
               (results',
                emitted @ [(progress, processed_msg page_num (length (images T)))])))"

text \<open>The loop; \<open>order\<close> lists the indices of the futures in the order they complete.\<close>

fun collect ::
  "ProcessingTask \<Rightarrow> world \<Rightarrow> nat \<Rightarrow> nat list \<Rightarrow> result list \<times> (int \<times> string) list
     \<Rightarrow> result list \<times> (int \<times> string) list" where
  "collect T world i [] st = st"
| "collect T world i (idx # order) st =
     collect T world (i + 1) order (collect_one T world i idx st)"

definition collected :: "ProcessingTask \<Rightarrow> world \<Rightarrow> nat list \<Rightarrow> result list" where
  "collected T world order = fst (collect T world 0 order ([], []))"

definition progress_events :: "ProcessingTask \<Rightarrow> world \<Rightarrow> nat list \<Rightarrow> (int \<times> string) list" where
  "progress_events T world order = snd (collect T world 0 order ([], []))"

text \<open>\<open>results.sort(key=lambda x: x[0])\<close>: a stable sort on the index.\<close>

definition batch_result :: "ProcessingTask \<Rightarrow> world \<Rightarrow> nat list \<Rightarrow> result list" where
  "batch_result T world order = sort_key fst (collected T world order)"

text \<open>
  \<open>run\<close>: the sorted results, the notifications sent on \<open>progress_updated\<close> by the loop, and
  the text sent on \<open>processing_complete\<close>.  \<open>ThreadPoolExecutor\<close> raises \<open>ValueError\<close> for
  \<open>max_workers <= 0\<close>.
\<close>

definition run ::
  "ProcessingTask \<Rightarrow> world \<Rightarrow> nat list
     \<Rightarrow> string + result list \<times> (int \<times> string) list \<times> string" where
  "run T world order =
     (if parallelism T \<le> 0 then Inl ''max_workers must be greater than 0''
      else Inr (batch_result T world order, progress_events T world order,
                format_results T (batch_result T world order)))"

text \<open>The entry of \<open>results\<close> for the worker of one index.\<close>

definition outcome_entry :: "ProcessingTask \<Rightarrow> world \<Rightarrow> nat \<Rightarrow> result" where
  "outcome_entry T world idx =
     (idx, fst (process_image T (world idx) (images T ! idx) idx),
      snd (process_image T (world idx) (images T ! idx) idx), idx + 1)"

text \<open>The notifications sent by the workers of the batch.\<close>

definition worker_events :: "ProcessingTask \<Rightarrow> world \<Rightarrow> (int \<times> string) list" where
  "worker_events T world =
     concat (map (\<lambda>idx. emits (effects_of (process_image_run T (world idx) (images T ! idx) idx)))
               [0 ..< length (images T)])"

section \<open>A sample batch\<close>

text \<open>
  Three pages, one retry allowed: page 1 succeeds at once, page 2 meets an exception while
  loading and then succeeds, page 3 is reported failed on every pass.
\<close>

definition demo_task :: ProcessingTask where
  "demo_task = ProcessingTask_init [''a.png'', ''b.png'', ''c.png''] ''sys'' ''usr'' 2 1 ''md''"

definition demo_world :: world where
  "demo_world idx n =
     (if idx = 2 then Returns False ''boom''
      else if idx = 1 \<and> n = 0 then LoadRaises ''io''
      else Returns True ''text'')"


section \<open>Properties of the worker\<close>

lemma after_simps [simp]:
  "exit_of (after es r) = exit_of r"
  "outcome_of (after es r) = outcome_of r"
  "effects_of (after es r) = es @ effects_of r"
  by (simp_all add: after_def exit_of_def outcome_of_def effects_of_def)

lemma triple_simps [simp]:
  "exit_of (s, out, es) = s"
  "outcome_of (s, out, es) = out"
  "effects_of (s, out, es) = es"
  by (simp_all add: exit_of_def outcome_of_def effects_of_def)

lemma waits_append [simp]: "waits (xs @ ys) = waits xs @ waits ys"
  by (induction xs rule: waits.induct) simp_all

lemma emits_append [simp]: "emits (xs @ ys) = emits xs @ emits ys"
  by (induction xs rule: emits.induct) simp_all

lemma waits_filter_backoff: "waits (filter is_backoff es) = waits es"
  by (induction es rule: waits.induct) simp_all

lemma waits_attempt [simp]: "waits (attempt_effects T p a) = []"
  by (cases a) simp_all

lemma emits_attempt [simp]: "emits (attempt_effects T p a) = []"
  by (cases a) simp_all

lemma filter_call_attempt [simp]:
  "filter is_call (attempt_effects T p a) =
     (if call_failed a \<or> \<not> failed a then [Transcribe p (system_prompt T) (user_prompt T)] else [])"
  by (cases a) simp_all

lemma filter_backoff_attempt [simp]: "filter is_backoff (attempt_effects T p a) = []"
  by (cases a) simp_all

lemma call_failed_imp_failed: "call_failed a \<Longrightarrow> failed a"
  by (cases a) simp_all

lemma failed_as_reported [simp]: "failed (as_reported a) = failed a"
  by (cases a) simp_all

lemma text_of_as_reported [simp]: "text_of (as_reported a) = text_of a"
  by (cases a) simp_all

subsection \<open>One pass of the loop\<close>

lemma loop_exit:
  "\<not> int r \<le> max_retries T \<Longrightarrow>
   process_loop T env p i r = (ReturnFallback, (False, ''Maximum retries exceeded''), [])"
  by (subst process_loop.simps) simp

lemma loop_success:
  "int r \<le> max_retries T \<Longrightarrow> env 0 = Returns True s \<Longrightarrow>
   process_loop T env p i r = (ReturnSuccess, (True, s), attempt_effects T p (env 0))"
  by (subst process_loop.simps) simp

lemma loop_retry:
  "int r \<le> max_retries T \<Longrightarrow> failed (env 0) \<Longrightarrow> int (r + 1) \<le> max_retries T \<Longrightarrow>
   process_loop T env p i r =
     after (attempt_effects T p (env 0) @
            [Emit (- 1) (notice (env 0) (i + 1) (r + 1) (max_retries T)),
             Msleep (2 ^ (r + 1) * 1000)])
       (process_loop T (\<lambda>n. env (Suc n)) p i (r + 1))"
  by (subst process_loop.simps, cases "env 0") (simp_all add: Let_def)

lemma loop_give_up:
  "int r \<le> max_retries T \<Longrightarrow> failed (env 0) \<Longrightarrow> \<not> int (r + 1) \<le> max_retries T \<Longrightarrow>
   process_loop T env p i r =
     (case env 0 of Returns success response \<Rightarrow> ReturnFailed | _ \<Rightarrow> ReturnRaised,
      (False, text_of (env 0)), attempt_effects T p (env 0))"
  by (subst process_loop.simps, cases "env 0") (simp_all add: Let_def)

lemma loop_cases:
  assumes "int r \<le> max_retries T"
  obtains (success) s where "env 0 = Returns True s"
  | (retry) "failed (env 0)" "int (r + 1) \<le> max_retries T"
  | (give_up) "failed (env 0)" "\<not> int (r + 1) \<le> max_retries T"
  by (cases "env 0") auto

subsection \<open>The loop as a whole\<close>

lemma loop_calls:
  assumes "int r \<le> max_retries T"
    and "\<forall>n. int (r + n) \<le> max_retries T \<longrightarrow> call_failed (env n)"
  shows "length (filter is_call (effects_of (process_loop T env p i r)))
           = nat (max_retries T) + 1 - r"
  using assms
proof (induction "nat (max_retries T - int r)" arbitrary: r env)
  case 0
  then have last: "\<not> int (r + 1) \<le> max_retries T" by linarith
  from 0 have cf: "call_failed (env 0)" by simp
  then have f: "failed (env 0)" by (rule call_failed_imp_failed)
  have "nat (max_retries T) = r" using 0 by linarith
  with cf show ?case
    by (simp add: loop_give_up [of r T env, OF "0.prems"(1) f last])
next
  case (Suc k)
  then have more: "int (r + 1) \<le> max_retries T" by linarith
  from Suc have cf: "call_failed (env 0)" by simp
  then have f: "failed (env 0)" by (rule call_failed_imp_failed)
  have k: "k = nat (max_retries T - int (r + 1))" using Suc.hyps(2) by linarith
  have rest: "\<forall>n. int (r + 1 + n) \<le> max_retries T \<longrightarrow> call_failed (env (Suc n))"
    using Suc.prems(2) by (simp add: add.commute add.left_commute)
  note IH = Suc.hyps(1) [OF k more rest]
  have "nat (max_retries T) + 1 - r = Suc (nat (max_retries T) + 1 - (r + 1))"
    using more by linarith
  with IH cf show ?case
    by (simp add: loop_retry [of r T env, OF Suc.prems(1) f more])
qed

lemma loop_backoff:
  assumes "int r \<le> max_retries T"
    and "\<forall>n. int (r + n) \<le> max_retries T \<longrightarrow> failed (env n)"
  shows "filter is_backoff (effects_of (process_loop T env p i r)) =
           backoff_steps T env i r (nat (max_retries T))"
  using assms
proof (induction "nat (max_retries T - int r)" arbitrary: r env)
  case 0
  then have last: "\<not> int (r + 1) \<le> max_retries T" by linarith
  from 0 have f: "failed (env 0)" by simp
  have "nat (max_retries T) = r" using 0 by linarith
  then show ?case
    by (simp add: loop_give_up [of r T env, OF "0.prems"(1) f last] backoff_steps_def)
next
  case (Suc k)
  then have more: "int (r + 1) \<le> max_retries T" by linarith
  from Suc have f: "failed (env 0)" by simp
  have k: "k = nat (max_retries T - int (r + 1))" using Suc.hyps(2) by linarith
  have rest: "\<forall>n. int (r + 1 + n) \<le> max_retries T \<longrightarrow> failed (env (Suc n))"
    using Suc.prems(2) by (simp add: add.commute add.left_commute)
  note IH = Suc.hyps(1) [OF k more rest]
  have le: "r + 1 < nat (max_retries T) + 1" using more by linarith
  have shift:
    "map (\<lambda>k. [Emit (- 1) (notice (env (Suc (k - (r + 1) - 1))) (i + 1) k (max_retries T)),
               Msleep (2 ^ k * 1000)]) [r + 1 + 1 ..< nat (max_retries T) + 1]
     = map (\<lambda>k. [Emit (- 1) (notice (env (k - r - 1)) (i + 1) k (max_retries T)),
                 Msleep (2 ^ k * 1000)]) [r + 1 + 1 ..< nat (max_retries T) + 1]"
    by (rule map_cong) (auto simp: Suc_diff_Suc)
  have "backoff_steps T env i r (nat (max_retries T)) =
          [Emit (- 1) (notice (env 0) (i + 1) (r + 1) (max_retries T)), Msleep (2 ^ (r + 1) * 1000)]
          @ backoff_steps T (\<lambda>n. env (Suc n)) i (r + 1) (nat (max_retries T))"
    unfolding backoff_steps_def shift using le by (simp add: upt_conv_Cons del: upt_Suc)
  with IH show ?case
    by (simp add: loop_retry [of r T env, OF Suc.prems(1) f more])
qed

lemma waits_notify_sleep:
  "waits (concat (map (\<lambda>k. [Emit v (m k), Msleep (w k)]) ks)) = map w ks"
  by (induction ks) simp_all

lemma waits_backoff_steps:
  "waits (backoff_steps T env i r n) = map (\<lambda>k. 2 ^ k * 1000) [r + 1 ..< n + 1]"
  unfolding backoff_steps_def by (rule waits_notify_sleep)


lemma loop_sentinel:
  "v \<in> fst ` set (emits (effects_of (process_loop T env p i r))) \<Longrightarrow> v = - 1"
proof (induction "nat (max_retries T + 1 - int r)" arbitrary: r env)
  case 0
  then have "\<not> int r \<le> max_retries T" by linarith
  with 0 show ?case by (simp add: loop_exit)
next
  case (Suc k)
  then have inside: "int r \<le> max_retries T" by linarith
  have k: "k = nat (max_retries T + 1 - int (r + 1))" using Suc.hyps(2) by linarith
  note IH = Suc.hyps(1) [OF k, of "\<lambda>n. env (Suc n)"]
  from inside show ?case
  proof (cases rule: loop_cases [of r T env])
    case (success s)
    then show ?thesis
      using Suc.prems loop_success [of r T env s p i, OF inside] by simp
  next
    case retry
    then show ?thesis
      using IH Suc.prems loop_retry [of r T env p i, OF inside] by auto
  next
    case give_up
    then show ?thesis
      using Suc.prems loop_give_up [of r T env p i, OF inside] by simp
  qed
qed

text \<open>How the loop is left when it is entered with \<open>retries\<close> within the bound.\<close>

lemma loop_returns:
  assumes "int r \<le> max_retries T"
  shows "\<exists>k. int (r + k) \<le> max_retries T \<and> (\<forall>j<k. failed (env j)) \<and>
           (if failed (env k)
            then int (r + k) = max_retries T
               \<and> exit_of (process_loop T env p i r) \<in> {ReturnFailed, ReturnRaised}
               \<and> outcome_of (process_loop T env p i r) = (False, text_of (env k))
            else exit_of (process_loop T env p i r) = ReturnSuccess
               \<and> outcome_of (process_loop T env p i r) = (True, text_of (env k)))"
  using assms
proof (induction "nat (max_retries T - int r)" arbitrary: r env)
  case 0
  then have last: "\<not> int (r + 1) \<le> max_retries T" by linarith
  show ?case
  proof (cases "failed (env 0)")
    case True
    have "int r = max_retries T" using 0 by linarith
    with True loop_give_up [of r T env p i, OF "0.prems" True last] show ?thesis
      by (intro exI [of _ 0]) (cases "env 0"; simp)
  next
    case False
    then obtain s where "env 0 = Returns True s" by (cases "env 0") auto
    with loop_success [of r T env s p i, OF "0.prems"] "0.prems" show ?thesis
      by (intro exI [of _ 0]) simp
  qed
next
  case (Suc m)
  then have more: "int (r + 1) \<le> max_retries T" by linarith
  have m: "m = nat (max_retries T - int (r + 1))" using Suc.hyps(2) by linarith
  show ?case
  proof (cases "failed (env 0)")
    case True
    from Suc.hyps(1) [OF m more, of "\<lambda>n. env (Suc n)"]
    obtain k where k: "int (r + 1 + k) \<le> max_retries T" "\<forall>j<k. failed (env (Suc j))"
      "if failed (env (Suc k))
       then int (r + 1 + k) = max_retries T
          \<and> exit_of (process_loop T (\<lambda>n. env (Suc n)) p i (r + 1)) \<in> {ReturnFailed, ReturnRaised}
          \<and> outcome_of (process_loop T (\<lambda>n. env (Suc n)) p i (r + 1))
              = (False, text_of (env (Suc k)))
       else exit_of (process_loop T (\<lambda>n. env (Suc n)) p i (r + 1)) = ReturnSuccess
          \<and> outcome_of (process_loop T (\<lambda>n. env (Suc n)) p i (r + 1))
              = (True, text_of (env (Suc k)))"
      by blast
    have all: "\<forall>j<Suc k. failed (env j)"
      using True k(2) by (auto simp: less_Suc_eq_0_disj)
    show ?thesis
      using k(1) k(3) all loop_retry [of r T env p i, OF Suc.prems True more]
      by (intro exI [of _ "Suc k"]) (simp split: if_splits)
  next
    case False
    then obtain s where "env 0 = Returns True s" by (cases "env 0") auto
    with loop_success [of r T env s p i, OF Suc.prems] Suc.prems show ?thesis
      by (intro exI [of _ 0]) simp
  qed
qed

lemma run_returns:
  assumes "0 \<le> max_retries T"
  shows "\<exists>k. int k \<le> max_retries T \<and> (\<forall>j<k. failed (env j)) \<and>
           (if failed (env k)
            then int k = max_retries T
               \<and> exit_of (process_loop T env p i 0) \<in> {ReturnFailed, ReturnRaised}
               \<and> outcome_of (process_loop T env p i 0) = (False, text_of (env k))
            else exit_of (process_loop T env p i 0) = ReturnSuccess
               \<and> outcome_of (process_loop T env p i 0) = (True, text_of (env k)))"
  using loop_returns [of 0 T env p i] assms by (simp cong: if_cong)

lemma process_image_outcome:
  "process_image T env p i = outcome_of (process_image_run T env p i)"
  by (simp add: process_image_def outcome_of_def)


subsection \<open>Exceptions of any class\<close>





lemma as_attempt_reported [simp]: "as_attempt (reported m) = as_reported (as_attempt m)"
  by (cases m) simp_all

lemma caught_reported [simp]: "caught (reported m)"
  by (cases m) simp_all


subsection \<open>Retry bound\<close>

text \<open>
  Claim C3.  With \<open>max_retries = R \<ge> 0\<close>, a unit whose transcriber call fails (reports
  failure or raises) on every pass has the transcriber invoked exactly \<open>R + 1\<close> times, and
  the worker then returns a failed outcome, carrying the text of the last failure.
\<close>

theorem retry_bound:
  assumes "0 \<le> max_retries T"
    and "\<forall>n\<le>nat (max_retries T). call_failed (env n)"
  shows "length (filter is_call (effects_of (process_image_run T env p i)))
           = nat (max_retries T) + 1
       \<and> process_image T env p i = (False, text_of (env (nat (max_retries T))))
       \<and> exit_of (process_image_run T env p i) \<in> {ReturnFailed, ReturnRaised}"
proof -
  have start: "int 0 \<le> max_retries T" using assms(1) by simp
  have fails: "\<forall>n. int (0 + n) \<le> max_retries T \<longrightarrow> call_failed (env n)"
    using assms(2) by (simp add: le_nat_iff)
  have calls: "length (filter is_call (effects_of (process_loop T env p i 0)))
                 = nat (max_retries T) + 1"
    using loop_calls [OF start fails, of p i] by simp
  from run_returns [OF assms(1), of env p i]
  obtain k where k: "int k \<le> max_retries T"
    "if failed (env k)
     then int k = max_retries T
        \<and> exit_of (process_loop T env p i 0) \<in> {ReturnFailed, ReturnRaised}
        \<and> outcome_of (process_loop T env p i 0) = (False, text_of (env k))
     else exit_of (process_loop T env p i 0) = ReturnSuccess
        \<and> outcome_of (process_loop T env p i 0) = (True, text_of (env k))"
    by blast
  have "failed (env k)"
    using k(1) fails by (simp add: call_failed_imp_failed)
  with k(2) have "int k = max_retries T"
    and "exit_of (process_loop T env p i 0) \<in> {ReturnFailed, ReturnRaised}"
    and "outcome_of (process_loop T env p i 0) = (False, text_of (env k))"
    by simp_all
  moreover from this(1) have "k = nat (max_retries T)" by linarith
  ultimately show ?thesis using calls
    by (simp add: process_image_outcome process_image_run_def)
qed

theorem retry_bound_witness:
  "0 \<le> max_retries (ProcessingTask_init [''a.png''] ''sys'' ''usr'' 3 2 ''md'')
   \<and> call_failed (CallRaises ''timeout'') \<and> call_failed (Returns False ''bad'')
   \<and> length (filter is_call (effects_of
        (process_image_run (ProcessingTask_init [''a.png''] ''sys'' ''usr'' 3 2 ''md'')
           (\<lambda>n. if n = 1 then CallRaises ''timeout'' else Returns False ''bad'') ''a.png'' 0))) = 3
   \<and> process_image (ProcessingTask_init [''a.png''] ''sys'' ''usr'' 3 2 ''md'')
        (\<lambda>n. if n = 1 then CallRaises ''timeout'' else Returns False ''bad'') ''a.png'' 0
       = (False, ''bad'')"
proof -
  let ?T = "ProcessingTask_init [''a.png''] ''sys'' ''usr'' 3 2 ''md''"
  let ?env = "\<lambda>n::nat. if n = 1 then CallRaises ''timeout'' else Returns False ''bad''"
  have h1: "0 \<le> max_retries ?T" by (simp add: ProcessingTask_init_def)
  have h2: "\<forall>n\<le>nat (max_retries ?T). call_failed (?env n)" by simp
  have R: "nat (max_retries ?T) = 2" by (simp add: ProcessingTask_init_def)
  from retry_bound [OF h1 h2, of "''a.png''" 0] h1 h2 show ?thesis
    unfolding R by simp
qed

subsection \<open>Backoff growth\<close>

text \<open>
  Claim C4.  With \<open>max_retries = R \<ge> 1\<close> and a unit that fails on every pass, the waits
  between the passes are \<open>2\<^sup>1, 2\<^sup>2, \<dots>, 2\<^sup>R\<close> seconds in that order (\<open>msleep\<close> takes
  milliseconds), with nothing added, and each wait directly follows a notification with
  the indeterminate value \<open>-1\<close> whose message names the page and the retry attempt.
\<close>

theorem backoff_growth:
  assumes "1 \<le> max_retries T"
    and "\<forall>n\<le>nat (max_retries T). failed (env n)"
  shows "waits (effects_of (process_image_run T env p i))
           = map (\<lambda>k. 2 ^ k * 1000) [1 ..< nat (max_retries T) + 1]
       \<and> filter is_backoff (effects_of (process_image_run T env p i))
           = concat (map (\<lambda>k. [Emit (- 1) (notice (env (k - 1)) (i + 1) k (max_retries T)),
                                Msleep (2 ^ k * 1000)])
                       [1 ..< nat (max_retries T) + 1])"
proof -
  have start: "int 0 \<le> max_retries T" using assms(1) by simp
  have fails: "\<forall>n. int (0 + n) \<le> max_retries T \<longrightarrow> failed (env n)"
    using assms(2) by (simp add: le_nat_iff)
  have steps: "filter is_backoff (effects_of (process_loop T env p i 0))
                 = backoff_steps T env i 0 (nat (max_retries T))"
    using start fails by (rule loop_backoff)
  have "waits (effects_of (process_loop T env p i 0))
          = waits (filter is_backoff (effects_of (process_loop T env p i 0)))"
    by (simp only: waits_filter_backoff)
  also have "\<dots> = map (\<lambda>k. 2 ^ k * 1000) [0 + 1 ..< nat (max_retries T) + 1]"
    unfolding steps by (rule waits_backoff_steps)
  finally show ?thesis
    using steps by (simp add: process_image_run_def backoff_steps_def)
qed

theorem backoff_growth_witness:
  "1 \<le> max_retries (ProcessingTask_init [''a.png''] ''sys'' ''usr'' 3 2 ''md'')
   \<and> failed (LoadRaises ''io'') \<and> failed (Returns False ''bad'')
   \<and> waits (effects_of
        (process_image_run (ProcessingTask_init [''a.png''] ''sys'' ''usr'' 3 2 ''md'')
           (\<lambda>n. if n = 1 then LoadRaises ''io'' else Returns False ''bad'') ''a.png'' 0))
       = [2000, 4000]
   \<and> filter is_backoff (effects_of
        (process_image_run (ProcessingTask_init [''a.png''] ''sys'' ''usr'' 3 2 ''md'')
           (\<lambda>n. if n = 1 then LoadRaises ''io'' else Returns False ''bad'') ''a.png'' 0))
       = [Emit (- 1) ''Retrying page 1 (attempt 1/2)...'', Msleep 2000,
          Emit (- 1) ''Error on page 1, retrying (attempt 2/2)...'', Msleep 4000]"
proof -
  let ?T = "ProcessingTask_init [''a.png''] ''sys'' ''usr'' 3 2 ''md''"
  let ?env = "\<lambda>n::nat. if n = 1 then LoadRaises ''io'' else Returns False ''bad''"
  have h1: "1 \<le> max_retries ?T" by (simp add: ProcessingTask_init_def)
  have h2: "\<forall>n\<le>nat (max_retries ?T). failed (?env n)" by simp
  have R: "nat (max_retries ?T) = 2" "max_retries ?T = 2"
    by (simp_all add: ProcessingTask_init_def)
  have upt: "[1 ..< nat (max_retries ?T) + 1] = [1, 2]"
    unfolding R by (simp add: upt_conv_Cons)
  have s1: "str_nat (Suc 0) = ''1''" and s2: "str_nat 2 = ''2''" and s3: "str_int 2 = ''2''"
    by (simp_all add: str_int_def str_nat.simps digit_chars_def)
  note c = backoff_growth [OF h1 h2, of "''a.png''" 0, unfolded upt]
  from c h1 h2 show ?thesis
    unfolding R by (simp add: retrying_msg_def error_msg_def s1 s2 s3)
qed

subsection \<open>Exceptions are handled as failures\<close>




subsection \<open>The fallback return\<close>

text \<open>
  Claim C10.  With \<open>max_retries \<ge> 0\<close> the statement after the loop (returning a failure
  with the text \<open>Maximum retries exceeded\<close>) is never reached: the worker returns from
  inside the loop, either with the response of a successful pass, or, after the last
  allowed pass has failed as all the earlier ones did, with the message of that last
  failure.
\<close>

theorem fallback_unreachable:
  assumes "0 \<le> max_retries T"
  shows "exit_of (process_image_run T env p i) \<noteq> ReturnFallback
       \<and> (\<exists>k\<le>nat (max_retries T). (\<forall>j<k. failed (env j)) \<and>
            (if failed (env k)
             then k = nat (max_retries T)
                \<and> exit_of (process_image_run T env p i) \<in> {ReturnFailed, ReturnRaised}
                \<and> process_image T env p i = (False, text_of (env k))
             else exit_of (process_image_run T env p i) = ReturnSuccess
                \<and> process_image T env p i = (True, text_of (env k))))"
proof -
  have start: "int 0 \<le> max_retries T" using assms by simp
  from run_returns [OF assms, of env p i]
  obtain k where k: "int k \<le> max_retries T" "\<forall>j<k. failed (env j)"
    "if failed (env k)
     then int k = max_retries T
        \<and> exit_of (process_loop T env p i 0) \<in> {ReturnFailed, ReturnRaised}
        \<and> outcome_of (process_loop T env p i 0) = (False, text_of (env k))
     else exit_of (process_loop T env p i 0) = ReturnSuccess
        \<and> outcome_of (process_loop T env p i 0) = (True, text_of (env k))"
    by blast
  have kle: "k \<le> nat (max_retries T)" using k(1) by linarith
  have site: "exit_of (process_image_run T env p i) \<noteq> ReturnFallback"
    using k(3) by (auto simp: process_image_run_def split: if_splits)
  have "(\<forall>j<k. failed (env j)) \<and>
        (if failed (env k)
         then k = nat (max_retries T)
            \<and> exit_of (process_image_run T env p i) \<in> {ReturnFailed, ReturnRaised}
            \<and> process_image T env p i = (False, text_of (env k))
         else exit_of (process_image_run T env p i) = ReturnSuccess
            \<and> process_image T env p i = (True, text_of (env k)))"
    using k(2) k(3) by (auto simp: process_image_outcome process_image_run_def split: if_splits)
  with kle site show ?thesis by blast
qed

theorem fallback_unreachable_witness:
  "0 \<le> max_retries (ProcessingTask_init [''a.png''] ''sys'' ''usr'' 3 0 ''md'')
   \<and> exit_of (process_image_run (ProcessingTask_init [''a.png''] ''sys'' ''usr'' 3 0 ''md'')
        (\<lambda>n. Returns False ''Maximum retries exceeded'') ''a.png'' 0) \<noteq> ReturnFallback
   \<and> exit_of (process_image_run (ProcessingTask_init [''a.png''] ''sys'' ''usr'' 3 0 ''md'')
        (\<lambda>n. Returns False ''Maximum retries exceeded'') ''a.png'' 0) = ReturnFailed"
proof -
  let ?T = "ProcessingTask_init [''a.png''] ''sys'' ''usr'' 3 0 ''md''"
  let ?env = "\<lambda>n::nat. Returns False ''Maximum retries exceeded''"
  have h: "0 \<le> max_retries ?T" by (simp add: ProcessingTask_init_def)
  have site: "exit_of (process_image_run ?T ?env ''a.png'' 0) = ReturnFailed"
    by (simp add: process_image_run_def process_loop.simps ProcessingTask_init_def)
  from fallback_unreachable [OF h, of ?env "''a.png''" 0] h site show ?thesis
    by simp
qed


section \<open>Properties of the float operations\<close>

lemma round_half_even_mono: "x \<le> y \<Longrightarrow> round_half_even x \<le> round_half_even y"
proof -
  assume xy: "x \<le> y"
  have fl: "\<lfloor>x\<rfloor> \<le> \<lfloor>y\<rfloor>" using xy by (rule floor_mono)
  show ?thesis
  proof (cases "\<lfloor>x\<rfloor> = \<lfloor>y\<rfloor>")
    case True
    then have "x - of_int \<lfloor>x\<rfloor> \<le> y - of_int \<lfloor>y\<rfloor>" using xy by simp
    with True show ?thesis
      by (auto simp: round_half_even_def Let_def)
  next
    case False
    with fl have "\<lfloor>x\<rfloor> + 1 \<le> \<lfloor>y\<rfloor>" by simp
    moreover have "round_half_even x \<le> \<lfloor>x\<rfloor> + 1"
      by (simp add: round_half_even_def Let_def)
    moreover have "\<lfloor>y\<rfloor> \<le> round_half_even y"
      by (simp add: round_half_even_def Let_def)
    ultimately show ?thesis by linarith
  qed
qed

lemma round_half_even_of_int [simp]: "round_half_even (of_int n) = n"
  by (simp add: round_half_even_def)

lemma round_half_even_ge: "of_int n \<le> x \<Longrightarrow> n \<le> round_half_even x"
  using round_half_even_mono [of "of_int n" x] by simp

lemma round_half_even_le: "x \<le> of_int n \<Longrightarrow> round_half_even x \<le> n"
  using round_half_even_mono [of x "of_int n"] by simp

lemma bitlen_pos: "0 < m \<Longrightarrow> 1 \<le> bitlen m"
  using bitlen_eq_zero_iff [of m] bitlen_nonneg [of m] by linarith

lemma ilog2_bounds:
  assumes "0 < x"
  shows "2 powi (ilog2 x) \<le> x" and "x < 2 powi (ilog2 x + 1)"
proof -
  have "2 powi (ilog2 x) \<le> x \<and> x < 2 powi (ilog2 x + 1)"
  proof (cases "1 \<le> x")
    case True
    then have f: "0 < \<lfloor>x\<rfloor>" by simp
    from bitlen_bounds [OF f] have lo: "2 ^ nat (bitlen \<lfloor>x\<rfloor> - 1) \<le> \<lfloor>x\<rfloor>"
      and hi: "\<lfloor>x\<rfloor> < 2 ^ nat (bitlen \<lfloor>x\<rfloor>)" by simp_all
    have b: "1 \<le> bitlen \<lfloor>x\<rfloor>" using f by (rule bitlen_pos)
    have "(2::rat) powi (bitlen \<lfloor>x\<rfloor> - 1) = of_int (2 ^ nat (bitlen \<lfloor>x\<rfloor> - 1))"
      using b by (simp add: power_int_def)
    also have "\<dots> \<le> of_int \<lfloor>x\<rfloor>" using lo by (simp only: of_int_le_iff)
    also have "\<dots> \<le> x" by simp
    finally have 1: "(2::rat) powi (bitlen \<lfloor>x\<rfloor> - 1) \<le> x" .
    have "\<lfloor>x\<rfloor> + 1 \<le> 2 ^ nat (bitlen \<lfloor>x\<rfloor>)" using hi by simp
    then have "(of_int (\<lfloor>x\<rfloor> + 1) :: rat) \<le> of_int (2 ^ nat (bitlen \<lfloor>x\<rfloor>))"
      by (simp only: of_int_le_iff)
    moreover have "x < of_int (\<lfloor>x\<rfloor> + 1)" by linarith
    moreover have "(2::rat) powi (bitlen \<lfloor>x\<rfloor> - 1 + 1) = of_int (2 ^ nat (bitlen \<lfloor>x\<rfloor>))"
      using b by (simp add: power_int_def)
    ultimately have 2: "x < 2 powi (bitlen \<lfloor>x\<rfloor> - 1 + 1)" by linarith
    from True 1 2 show ?thesis by (simp add: ilog2_def)
  next
    case False
    then have x1: "x < 1" by simp
    define m where "m = \<lceil>1 / x\<rceil> - 1"
    have "1 < 1 / x" using assms x1 by (simp add: field_simps)
    then have "1 < \<lceil>1 / x\<rceil>" by (simp add: less_ceiling_iff)
    then have m: "0 < m" by (simp add: m_def)
    from bitlen_bounds [OF m] have lo: "2 ^ nat (bitlen m - 1) \<le> m"
      and hi: "m < 2 ^ nat (bitlen m)" by simp_all
    have b: "1 \<le> bitlen m" using m by (rule bitlen_pos)
    have "1 / x \<le> of_int (m + 1)" by (simp add: m_def)
    also have "(of_int (m + 1) :: rat) \<le> of_int (2 ^ nat (bitlen m))"
      using hi by (simp only: of_int_le_iff)
    finally have "1 / x \<le> 2 ^ nat (bitlen m)" by simp
    then have "1 \<le> 2 ^ nat (bitlen m) * x" using assms by (simp add: field_simps)
    then have 1: "2 powi (- bitlen m) \<le> x"
      using b by (simp add: power_int_def field_simps)
    have "(2::rat) ^ nat (bitlen m - 1) \<le> of_int m"
      using lo of_int_le_iff [of "2 ^ nat (bitlen m - 1)" m, where ?'a = rat] by simp
    moreover have "of_int m < 1 / x" unfolding m_def by linarith
    ultimately have "2 ^ nat (bitlen m - 1) < 1 / x" by linarith
    then have "2 ^ nat (bitlen m - 1) * x < 1" using assms by (simp add: field_simps)
    then have "x < 1 / 2 ^ nat (bitlen m - 1)" by (simp add: field_simps)
    moreover have "(2::rat) powi (- bitlen m + 1) = 1 / 2 ^ nat (bitlen m - 1)"
    proof -
      have "(2::rat) powi (- bitlen m + 1) = 2 powi (- (bitlen m - 1))" by simp
      also have "\<dots> = 1 / 2 powi (bitlen m - 1)" by (rule power_int_minus_divide)
      also have "(2::rat) powi (bitlen m - 1) = 2 ^ nat (bitlen m - 1)"
        using b by (intro power_int_nonneg_exp) simp
      finally show ?thesis .
    qed
    ultimately have 2: "x < 2 powi (- bitlen m + 1)" by simp
    from False 1 2 show ?thesis by (simp add: ilog2_def m_def)
  qed
  then show "2 powi (ilog2 x) \<le> x" and "x < 2 powi (ilog2 x + 1)" by simp_all
qed

lemma ilog2_mono:
  assumes "0 < x" "x \<le> y"
  shows "ilog2 x \<le> ilog2 y"
proof (rule ccontr)
  assume "\<not> ilog2 x \<le> ilog2 y"
  then have "ilog2 y + 1 \<le> ilog2 x" by simp
  then have "(2::rat) powi (ilog2 y + 1) \<le> 2 powi (ilog2 x)"
    by (intro power_int_increasing) simp_all
  also have "\<dots> \<le> x" using assms(1) by (rule ilog2_bounds)
  also have "\<dots> \<le> y" by fact
  also have "\<dots> < 2 powi (ilog2 y + 1)" using assms by (intro ilog2_bounds) simp
  finally show False by simp
qed

lemma binary64_nonneg: "0 \<le> x \<Longrightarrow> 0 \<le> binary64 x"
proof -
  assume x: "0 \<le> x"
  have "0 \<le> round_half_even (x / 2 powi (max (ilog2 x) (- 1022) - 52))"
    using x by (intro round_half_even_ge) simp
  with x show ?thesis
    by (simp add: binary64_def Let_def sgn_if)
qed

lemma binary64_pos_unfold:
  "0 < x \<Longrightarrow> binary64 x =
     of_int (round_half_even (x / 2 powi (max (ilog2 x) (- 1022) - 52)))
       * 2 powi (max (ilog2 x) (- 1022) - 52)"
  by (simp add: binary64_def Let_def)

text \<open>Rounding to the nearest float is monotone.\<close>

lemma binary64_mono:
  assumes "0 \<le> x" "x \<le> y"
  shows "binary64 x \<le> binary64 y"
proof (cases "x = 0")
  case True
  with assms binary64_nonneg [of y] show ?thesis by (simp add: binary64_def)
next
  case False
  with assms have x: "0 < x" and y: "0 < y" by simp_all
  define ex where "ex = max (ilog2 x) (- 1022)"
  define ey where "ey = max (ilog2 y) (- 1022)"
  have bx: "binary64 x = of_int (round_half_even (x / 2 powi (ex - 52))) * 2 powi (ex - 52)"
    unfolding ex_def using x by (rule binary64_pos_unfold)
  have "by": "binary64 y = of_int (round_half_even (y / 2 powi (ey - 52))) * 2 powi (ey - 52)"
    unfolding ey_def using y by (rule binary64_pos_unfold)
  have le: "ex \<le> ey"
    using ilog2_mono [OF x assms(2)] by (simp add: ex_def ey_def)
  show ?thesis
  proof (cases "ex = ey")
    case True
    have "x / 2 powi (ey - 52) \<le> y / 2 powi (ey - 52)"
      using assms(2) by (simp add: divide_right_mono)
    then have "round_half_even (x / 2 powi (ey - 52)) \<le> round_half_even (y / 2 powi (ey - 52))"
      by (rule round_half_even_mono)
    then have "(of_int (round_half_even (x / 2 powi (ey - 52))) :: rat)
                 \<le> of_int (round_half_even (y / 2 powi (ey - 52)))"
      by (simp only: of_int_le_iff)
    then show ?thesis
      unfolding bx "by" True by (intro mult_right_mono) simp_all
  next
    case False
    with le have lt: "ex < ey" by simp
    then have ey: "ey = ilog2 y" and exy: "ilog2 x + 1 \<le> ey"
      by (auto simp: ex_def ey_def)
    \<comment> \<open>the power of two that separates them\<close>
    have "x < 2 powi (ilog2 x + 1)" using x by (rule ilog2_bounds)
    also have "(2::rat) powi (ilog2 x + 1) \<le> 2 powi ey"
      using exy by (intro power_int_increasing) simp_all
    finally have xlt: "x < 2 powi ey" .
    have split: "(2::rat) powi ey = 2 powi (ey - ex + 52) * 2 powi (ex - 52)"
      by (simp flip: power_int_add)
    have "x / 2 powi (ex - 52) \<le> 2 powi (ey - ex + 52)"
      using xlt by (simp add: split field_simps)
    also have "(2::rat) powi (ey - ex + 52) = of_int (2 ^ nat (ey - ex + 52))"
      using lt by (simp add: power_int_def)
    finally have "round_half_even (x / 2 powi (ex - 52)) \<le> 2 ^ nat (ey - ex + 52)"
      by (rule round_half_even_le)
    then have "(of_int (round_half_even (x / 2 powi (ex - 52))) :: rat)
                 \<le> of_int (2 ^ nat (ey - ex + 52))"
      by (simp only: of_int_le_iff)
    then have "binary64 x \<le> of_int (2 ^ nat (ey - ex + 52)) * 2 powi (ex - 52)"
      unfolding bx by (intro mult_right_mono) simp_all
    also have "\<dots> = 2 powi (ey - ex + 52) * 2 powi (ex - 52)"
      using lt by (simp add: power_int_def)
    also have "\<dots> = 2 powi ey" by (simp only: split)
    finally have low: "binary64 x \<le> 2 powi ey" .
    have "(2::rat) powi ey \<le> y" unfolding ey using y by (rule ilog2_bounds)
    then have "2 powi ey / 2 powi (ey - 52) \<le> y / 2 powi (ey - 52)"
      by (intro divide_right_mono) simp_all
    moreover have "(2::rat) powi ey / 2 powi (ey - 52) = 2 powi (ey - (ey - 52))"
      by (rule power_int_diff [symmetric]) simp
    ultimately have "(2::rat) powi 52 \<le> y / 2 powi (ey - 52)" by simp
    then have "rat_of_int (2 ^ 52) \<le> y / 2 powi (ey - 52)" by simp
    then have "2 ^ 52 \<le> round_half_even (y / 2 powi (ey - 52))"
      by (rule round_half_even_ge)
    then have "(of_int (2 ^ 52) :: rat) \<le> of_int (round_half_even (y / 2 powi (ey - 52)))"
      by (simp only: of_int_le_iff)
    then have "of_int (2 ^ 52) * 2 powi (ey - 52) \<le> binary64 y"
      unfolding "by" by (intro mult_right_mono) simp_all
    moreover have "rat_of_int (2 ^ 52) * 2 powi (ey - 52) = 2 powi ey"
    proof -
      have a: "rat_of_int (2 ^ 52) = 2 powi 52" by simp
      have b: "(2::rat) powi 52 * 2 powi (ey - 52) = 2 powi (52 + (ey - 52))"
        by (rule power_int_add [symmetric]) simp
      have c: "52 + (ey - 52) = ey" by simp
      show ?thesis unfolding a b c ..
    qed
    ultimately have "2 powi ey \<le> binary64 y" by simp
    with low show ?thesis by simp
  qed
qed

lemma binary64_one: "binary64 1 = 1"
  by code_simp

lemma binary64_hundred: "binary64 100 = 100"
  by code_simp

lemma percent_floor:
  "percent k n = \<lfloor>binary64 (binary64 (of_nat k / of_nat n) * 100)\<rfloor>"
proof -
  have "0 \<le> binary64 (of_nat k / of_nat n)" by (rule binary64_nonneg) simp
  then have "0 \<le> binary64 (binary64 (of_nat k / of_nat n) * 100)"
    by (intro binary64_nonneg) simp
  then show ?thesis
    by (simp add: percent_def int_of_float_def float_mul_def true_div_def)
qed

lemma percent_nonneg: "0 \<le> percent k n"
proof -
  have "0 \<le> binary64 (of_nat k / of_nat n)" by (rule binary64_nonneg) simp
  then have "0 \<le> binary64 (binary64 (of_nat k / of_nat n) * 100)"
    by (intro binary64_nonneg) simp
  then show ?thesis unfolding percent_floor by simp
qed

lemma percent_mono:
  assumes "k \<le> k'"
  shows "percent k n \<le> percent k' n"
proof -
  have "(of_nat k :: rat) / of_nat n \<le> of_nat k' / of_nat n"
    using assms by (intro divide_right_mono) simp_all
  then have "binary64 (of_nat k / of_nat n) \<le> binary64 (of_nat k' / of_nat n)"
    by (intro binary64_mono) simp_all
  moreover have "0 \<le> binary64 (of_nat k / of_nat n)" by (rule binary64_nonneg) simp
  ultimately have "binary64 (binary64 (of_nat k / of_nat n) * 100)
                     \<le> binary64 (binary64 (of_nat k' / of_nat n) * 100)"
    by (intro binary64_mono) simp_all
  then show ?thesis unfolding percent_floor by (rule floor_mono)
qed

lemma percent_full: "0 < n \<Longrightarrow> percent n n = 100"
  unfolding percent_floor by (simp add: binary64_one binary64_hundred)


section \<open>Properties of the scheduler and the formatter\<close>

lemma collect_one_eq:
  assumes "images T \<noteq> []"
  shows "collect_one T world i idx (rs, es) =
           (rs @ [outcome_entry T world idx],
            es @ [(percent (i + 1) (length (images T)),
                   processed_msg (idx + 1) (length (images T)))])"
  using assms
  by (simp add: collect_one_def future_result_def progress_percent_def outcome_entry_def
      Let_def split: prod.splits)

lemma collect_eq:
  assumes "images T \<noteq> []"
  shows "collect T world i order (rs, es) =
           (rs @ map (outcome_entry T world) order,
            es @ map (\<lambda>(j, idx). (percent (j + 1) (length (images T)),
                                   processed_msg (idx + 1) (length (images T))))
                   (enumerate i order))"
  by (induction order arbitrary: i rs es) (simp_all add: collect_one_eq [OF assms])

lemma order_nonempty:
  "mset order = mset [0 ..< length (images T)] \<Longrightarrow> order \<noteq> [] \<Longrightarrow> images T \<noteq> []"
  by auto

lemma collected_eq:
  assumes "mset order = mset [0 ..< length (images T)]"
  shows "collected T world order = map (outcome_entry T world) order"
proof (cases "order = []")
  case True
  then show ?thesis by (simp add: collected_def)
next
  case False
  with assms have "images T \<noteq> []" by (rule order_nonempty)
  then show ?thesis by (simp add: collected_def collect_eq)
qed

lemma progress_events_eq:
  assumes "mset order = mset [0 ..< length (images T)]"
  shows "progress_events T world order =
           map (\<lambda>(j, idx). (percent (j + 1) (length (images T)),
                             processed_msg (idx + 1) (length (images T))))
             (enumerate 0 order)"
proof (cases "order = []")
  case True
  then show ?thesis by (simp add: progress_events_def)
next
  case False
  with assms have "images T \<noteq> []" by (rule order_nonempty)
  then show ?thesis by (simp add: progress_events_def collect_eq)
qed

lemma fst_outcome_entry [simp]: "fst (outcome_entry T world idx) = idx"
  by (simp add: outcome_entry_def)

lemma map_fst_entries: "map fst (map (outcome_entry T world) xs) = xs"
  by (induction xs) simp_all

lemma length_order:
  "mset order = mset [0 ..< n] \<Longrightarrow> length order = n"
  using mset_eq_length [of order "[0 ..< n]"] by simp

lemma batch_result_eq:
  assumes "mset order = mset [0 ..< length (images T)]"
  shows "batch_result T world order = map (outcome_entry T world) [0 ..< length (images T)]"
proof -
  let ?xs = "map (outcome_entry T world) order"
  let ?ys = "map (outcome_entry T world) [0 ..< length (images T)]"
  have "mset ?xs = mset ?ys"
    unfolding mset_map assms ..
  moreover have "inj_on fst (set ?xs)"
    by (rule inj_onI) (auto simp: outcome_entry_def)
  moreover have "sorted (map fst ?ys)" by (simp only: map_fst_entries sorted_upt)
  ultimately have "sort_key fst ?xs = ?ys" by (rule sort_key_inj_key_eq)
  then show ?thesis
    by (simp add: batch_result_def collected_eq [OF assms])
qed

lemma format_loop_eq:
  "format_loop T results out =
     out @ map (\<lambda>(idx, success, text, page_num).
                 if success then text else error_text (output_format T) page_num text) results"
  by (induction results arbitrary: out) auto

lemma worker_event_sentinel:
  assumes "e \<in> set (worker_events T world)"
  shows "fst e = - 1"
proof -
  from assms obtain idx where
    "e \<in> set (emits (effects_of (process_loop T (world idx) (images T ! idx) idx 0)))"
    by (auto simp: worker_events_def process_image_run_def)
  then have "fst e \<in> fst ` set (emits (effects_of (process_loop T (world idx) (images T ! idx) idx 0)))"
    by (rule imageI)
  then show ?thesis by (rule loop_sentinel)
qed

lemma sorted_percents: "sorted (map (\<lambda>j. percent (j + 1) n) [i ..< m])"
  by (simp add: sorted_map sorted_wrt_iff_nth_less percent_mono)

lemma map_fst_progress:
  "map fst (map (\<lambda>(j, idx). (percent (j + 1) n, processed_msg (idx + 1) n)) (enumerate 0 order))
     = map (\<lambda>j. percent (j + 1) n) [0 ..< length order]"
proof -
  have "map (\<lambda>x. percent (fst x + 1) n) (enumerate 0 order)
          = map (\<lambda>j. percent (j + 1) n) (map fst (enumerate 0 order))"
    by (simp only: map_map comp_def)
  also have "map fst (enumerate 0 order) = [0 ..< length order]" by simp
  finally show ?thesis by (simp add: split_def comp_def)
qed

text \<open>The entries built by \<open>run\<close> carry the page number \<open>idx + 1\<close>.\<close>

lemma batch_pages:
  assumes "mset order = mset [0 ..< length (images T)]"
  shows "\<forall>(idx, success, text, page_num) \<in> set (batch_result T world order). page_num = idx + 1"
  unfolding batch_result_eq [OF assms] by (auto simp: outcome_entry_def)


subsection \<open>The sample batch\<close>

lemma demo_images [simp]: "images demo_task = [''a.png'', ''b.png'', ''c.png'']"
  by (simp add: demo_task_def ProcessingTask_init_def)

lemma demo_range: "[0 ..< length (images demo_task)] = [0, 1, 2]"
  by (simp add: upt_conv_Cons)

lemma demo_perm: "mset [2, 0, 1] = mset [0 ..< length (images demo_task)]"
  unfolding demo_range by (simp add: add_mset_commute)

lemma demo_entries:
  "map (outcome_entry demo_task demo_world) [0, 1, 2]
     = [(0, True, ''text'', 1), (1, True, ''text'', 2), (2, False, ''boom'', 3)]"
  by code_simp

lemma demo_collected:
  "map (outcome_entry demo_task demo_world) [2, 0, 1]
     = [(2, False, ''boom'', 3), (0, True, ''text'', 1), (1, True, ''text'', 2)]"
  by code_simp

lemma demo_progress:
  "progress_events demo_task demo_world [2, 0, 1]
     = [(33, ''Processed page 3/3''), (66, ''Processed page 1/3''), (100, ''Processed page 2/3'')]"
  by code_simp

lemma demo_worker_events:
  "worker_events demo_task demo_world
     = [(- 1, ''Error on page 2, retrying (attempt 1/1)...''),
        (- 1, ''Retrying page 3 (attempt 1/1)...'')]"
  by code_simp

lemma format_results_init:
  "format_results (ProcessingTask_init imgs sys_p user_p par retr fmt) results
     = join [CHR 0x0A, CHR 0x0A]
         (map (\<lambda>(idx, success, text, page_num).
                if success then text else error_text fmt page_num text) results)"
  by (simp add: format_results_def format_loop_eq ProcessingTask_init_def cong: if_cong)

lemma demo_batch:
  "batch_result demo_task demo_world [2, 0, 1]
     = [(0, True, ''text'', 1), (1, True, ''text'', 2), (2, False, ''boom'', 3)]"
  unfolding batch_result_eq [OF demo_perm] demo_range demo_entries ..

lemma demo_format:
  "join [CHR 0x0A, CHR 0x0A]
     (map (\<lambda>(idx, success, text, page_num).
            if success then text else error_text ''md'' (idx + 1) text)
        [(0::nat, True, ''text'', 1::nat), (1, True, ''text'', 2), (2, False, ''boom'', 3)])
   = ''text\<newline>\<newline>text\<newline>\<newline>> **Error processing page 3:**\<newline>>\<newline>> ```json\<newline>> boom\<newline>> ```''"
  by code_simp

subsection \<open>Order preservation\<close>

text \<open>
  Claim C1.  For every list of pages and every order in which the workers complete, the
  list handed to the formatter is sorted ascending by the original 0-based index: it
  holds the entries of the pages \<open>0, 1, \<dots>, n - 1\<close> in that order.
\<close>

theorem order_preserved:
  assumes "mset order = mset [0 ..< length (images T)]"
  shows "sorted (map fst (batch_result T world order))
       \<and> batch_result T world order = map (outcome_entry T world) [0 ..< length (images T)]"
  unfolding batch_result_eq [OF assms] by (simp only: map_fst_entries sorted_upt)

theorem order_preserved_witness:
  "sorted (map fst (batch_result demo_task demo_world [2, 0, 1]))
   \<and> batch_result demo_task demo_world [2, 0, 1]
       = [(0, True, ''text'', 1), (1, True, ''text'', 2), (2, False, ''boom'', 3)]"
proof -
  note th = order_preserved [OF demo_perm, of demo_world]
  from th have "sorted (map fst (batch_result demo_task demo_world [2, 0, 1]))"
    by (rule conjunct1)
  moreover from th have "batch_result demo_task demo_world [2, 0, 1]
      = map (outcome_entry demo_task demo_world) [0 ..< length (images demo_task)]"
    by (rule conjunct2)
  then have "batch_result demo_task demo_world [2, 0, 1]
      = [(0, True, ''text'', 1), (1, True, ''text'', 2), (2, False, ''boom'', 3)]"
    unfolding demo_range demo_entries .
  ultimately show ?thesis by (rule conjI)
qed

subsection \<open>One outcome per unit\<close>

text \<open>
  Claim C2.  The indices of the collected outcomes are, as a multiset, the indices of the
  submitted pages: each page has exactly one entry, none is lost and none occurs twice,
  whatever the workers meet.
\<close>

theorem every_unit_once:
  assumes "mset order = mset [0 ..< length (images T)]"
  shows "mset (map fst (collected T world order)) = mset [0 ..< length (images T)]
       \<and> distinct (map fst (collected T world order))
       \<and> length (collected T world order) = length (images T)
       \<and> collected T world order = map (outcome_entry T world) order"
proof -
  have c: "collected T world order = map (outcome_entry T world) order"
    using assms by (rule collected_eq)
  have idx: "map fst (collected T world order) = order"
    unfolding c by (rule map_fst_entries)
  have "distinct order"
    using mset_eq_imp_distinct_iff [OF assms] by simp
  moreover have "length order = length (images T)"
    using assms by (rule length_order)
  ultimately show ?thesis
    using assms c idx by simp
qed

theorem every_unit_once_witness:
  "collected demo_task demo_world [2, 0, 1]
     = [(2, False, ''boom'', 3), (0, True, ''text'', 1), (1, True, ''text'', 2)]
   \<and> distinct (map fst (collected demo_task demo_world [2, 0, 1]))
   \<and> length (collected demo_task demo_world [2, 0, 1]) = 3"
proof -
  note th = every_unit_once [OF demo_perm, of demo_world]
  from th have "collected demo_task demo_world [2, 0, 1]
      = map (outcome_entry demo_task demo_world) [2, 0, 1]"
    by blast
  then have "collected demo_task demo_world [2, 0, 1]
      = [(2, False, ''boom'', 3), (0, True, ''text'', 1), (1, True, ''text'', 2)]"
    unfolding demo_collected .
  moreover from th have "distinct (map fst (collected demo_task demo_world [2, 0, 1]))"
    by blast
  moreover from th have "length (collected demo_task demo_world [2, 0, 1]) = 3"
    by simp
  ultimately show ?thesis by blast
qed

subsection \<open>The empty batch\<close>

text \<open>
  Claim C6.  On an empty list of pages the scheduler yields an empty result list, the
  formatter renders it to the empty string, no progress notification is sent by the loop
  or by a worker, and no exception (in particular no division by zero) is raised.
\<close>

theorem empty_batch:
  assumes "0 < parallelism T" and "images T = []"
    and "mset order = mset [0 ..< length (images T)]"
  shows "run T world order = Inr ([], [], [])
       \<and> batch_result T world order = []
       \<and> format_results T (batch_result T world order) = []
       \<and> progress_events T world order = []
       \<and> worker_events T world = []"
proof -
  from assms(2,3) have "order = []" by simp
  then have "batch_result T world order = []" and "progress_events T world order = []"
    by (simp_all add: batch_result_def collected_def progress_events_def)
  moreover have "format_results T [] = []" by (simp add: format_results_def)
  moreover have "worker_events T world = []" using assms(2) by (simp add: worker_events_def)
  ultimately show ?thesis using assms(1) by (simp add: run_def)
qed

theorem empty_batch_witness:
  "0 < parallelism (ProcessingTask_init [] ''sys'' ''usr'' 3 3 ''md'')
   \<and> images (ProcessingTask_init [] ''sys'' ''usr'' 3 3 ''md'') = []
   \<and> run (ProcessingTask_init [] ''sys'' ''usr'' 3 3 ''md'') demo_world [] = Inr ([], [], [])"
proof -
  let ?T = "ProcessingTask_init [] ''sys'' ''usr'' 3 3 ''md''"
  have h1: "0 < parallelism ?T" and h2: "images ?T = []"
    by (simp_all add: ProcessingTask_init_def)
  have h3: "mset [] = mset [0 ..< length (images ?T)]" by (simp add: h2)
  from empty_batch [OF h1 h2 h3, of demo_world] h1 h2 show ?thesis by simp
qed

subsection \<open>The progress value\<close>

text \<open>
  Claim C7 says that the progress value sent after the \<open>k\<close>-th outcome of \<open>n\<close> is
  \<open>k / n * 100\<close> rounded to the nearest integer.  The code applies \<open>int\<close>, which
  truncates: after the second of three outcomes it sends 66, not 67.
\<close>

theorem progress_rounded_counterexample:
  "fst (progress_events demo_task demo_world [2, 0, 1] ! 1) \<noteq> rounded_percent 2 3
   \<and> fst (progress_events demo_task demo_world [2, 0, 1] ! 1) = 66
   \<and> rounded_percent 2 3 = 67"
proof -
  have sent: "fst (progress_events demo_task demo_world [2, 0, 1] ! 1) = 66"
    unfolding demo_progress by simp
  have claimed: "rounded_percent 2 3 = 67"
    by code_simp
  from sent claimed show ?thesis by simp
qed

text \<open>
  Claim C7, amended.  After the \<open>k\<close>-th outcome of \<open>n\<close> arrives, the scheduler sends a
  progress notification whose value is \<open>int(k / n * 100)\<close>, the float \<open>k / n * 100\<close>
  truncated to an integer, together with the message \<open>Processed page p/n\<close>, where \<open>p\<close> is
  the 1-based number of the page whose outcome arrived.
\<close>

theorem progress_truncated:
  assumes "mset order = mset [0 ..< length (images T)]"
    and "1 \<le> k" and "k \<le> length (images T)"
  shows "length (progress_events T world order) = length (images T)
       \<and> progress_events T world order ! (k - 1)
           = (\<lfloor>binary64 (binary64 (of_nat k / of_nat (length (images T))) * 100)\<rfloor>,
              processed_msg (order ! (k - 1) + 1) (length (images T)))"
proof -
  have len: "length order = length (images T)" using assms(1) by (rule length_order)
  then have k: "k - 1 < length order" using assms(2,3) by simp
  have "enumerate 0 order ! (k - 1) = (k - 1, order ! (k - 1))"
    using k by (simp add: nth_enumerate_eq)
  then have "progress_events T world order ! (k - 1)
               = (percent k (length (images T)),
                  processed_msg (order ! (k - 1) + 1) (length (images T)))"
    unfolding progress_events_eq [OF assms(1)] using k assms(2) by simp
  moreover have "length (progress_events T world order) = length (images T)"
    unfolding progress_events_eq [OF assms(1)] using len by simp
  ultimately show ?thesis by (simp add: percent_floor)
qed

theorem progress_truncated_witness:
  "length (progress_events demo_task demo_world [2, 0, 1]) = 3
   \<and> (\<lfloor>binary64 (binary64 (of_nat 2 / of_nat (length (images demo_task))) * 100)\<rfloor>,
       processed_msg ([2, 0, 1] ! (2 - 1) + 1) (length (images demo_task)))
      = (66, ''Processed page 1/3'')"
proof -
  have h2: "(1::nat) \<le> 2" and h3: "2 \<le> length (images demo_task)" by simp_all
  note th = progress_truncated [OF demo_perm h2 h3, of demo_world]
  from th have "length (progress_events demo_task demo_world [2, 0, 1]) = 3" by simp
  moreover from th have "progress_events demo_task demo_world [2, 0, 1] ! (2 - 1)
      = (\<lfloor>binary64 (binary64 (of_nat 2 / of_nat (length (images demo_task))) * 100)\<rfloor>,
         processed_msg ([2, 0, 1] ! (2 - 1) + 1) (length (images demo_task)))"
    by (rule conjunct2)
  then have "(\<lfloor>binary64 (binary64 (of_nat 2 / of_nat (length (images demo_task))) * 100)\<rfloor>,
              processed_msg ([2, 0, 1] ! (2 - 1) + 1) (length (images demo_task)))
      = [(33, ''Processed page 3/3''), (66, ''Processed page 1/3''),
         (100, ''Processed page 2/3'')] ! (2 - 1)"
    unfolding demo_progress by (rule sym)
  then have "(\<lfloor>binary64 (binary64 (of_nat 2 / of_nat (length (images demo_task))) * 100)\<rfloor>,
              processed_msg ([2, 0, 1] ! (2 - 1) + 1) (length (images demo_task)))
      = (66, ''Processed page 1/3'')"
    by simp
  ultimately show ?thesis by (rule conjI)
qed

subsection \<open>Progress is monotone\<close>

text \<open>
  Claim C8.  On a non-empty batch, however the notifications of the workers (all with the
  indeterminate value \<open>-1\<close>) are interleaved with those of the loop, the values other
  than \<open>-1\<close> that are sent are non-decreasing, and the last of them is 100.
\<close>

theorem progress_monotone:
  assumes "images T \<noteq> []"
    and "mset order = mset [0 ..< length (images T)]"
    and "set ws \<subseteq> set (worker_events T world)"
    and "t \<in> shuffles ws (progress_events T world order)"
  shows "sorted (filter (\<lambda>v. v \<noteq> - 1) (map fst t))
       \<and> last (filter (\<lambda>v. v \<noteq> - 1) (map fst t)) = 100"
proof -
  let ?n = "length (images T)"
  let ?P = "\<lambda>e :: int \<times> string. fst e \<noteq> - 1"
  let ?sched = "progress_events T world order"
  have len: "length order = ?n" using assms(2) by (rule length_order)
  have vals: "map fst ?sched = map (\<lambda>j. percent (j + 1) ?n) [0 ..< ?n]"
    unfolding progress_events_eq [OF assms(2)] map_fst_progress len ..
  have keep: "filter ?P ?sched = ?sched"
  proof (rule filter_True, rule ballI)
    fix e assume "e \<in> set ?sched"
    then have "fst e \<in> set (map fst ?sched)" by simp
    then obtain j where "fst e = percent (j + 1) ?n" unfolding vals by auto
    then show "fst e \<noteq> - 1" using percent_nonneg [of "j + 1" ?n] by simp
  qed
  have drop: "filter ?P ws = []"
    using assms(3) by (auto simp: filter_empty_conv dest: worker_event_sentinel)
  have "filter ?P t \<in> filter ?P ` shuffles ws ?sched" using assms(4) by (rule imageI)
  then have "filter ?P t \<in> shuffles (filter ?P ws) (filter ?P ?sched)"
    by (simp only: filter_shuffles)
  then have "filter ?P t = ?sched" by (simp add: keep drop)
  then have "map fst (filter ?P t) = map (\<lambda>j. percent (j + 1) ?n) [0 ..< ?n]"
    by (simp only: vals)
  moreover have "map fst (filter ?P t) = filter (\<lambda>v. v \<noteq> - 1) (map fst t)"
    by (simp add: filter_map comp_def)
  ultimately have eq: "filter (\<lambda>v. v \<noteq> - 1) (map fst t) = map (\<lambda>j. percent (j + 1) ?n) [0 ..< ?n]"
    by simp
  have pos: "0 < ?n" using assms(1) by simp
  then have "[0 ..< ?n] \<noteq> []" by simp
  then have "last (map (\<lambda>j. percent (j + 1) ?n) [0 ..< ?n]) = percent (last [0 ..< ?n] + 1) ?n"
    by (simp add: last_map)
  also have "last [0 ..< ?n] + 1 = ?n" using pos by simp
  also have "percent ?n ?n = 100" using pos by (rule percent_full)
  finally show ?thesis
    unfolding eq using sorted_percents [of ?n 0 ?n] by simp
qed

theorem progress_monotone_witness:
  "filter (\<lambda>v. v \<noteq> - 1) (map fst
      [(- 1 :: int, ''Error on page 2, retrying (attempt 1/1)...''), (33, ''Processed page 3/3''),
       (66, ''Processed page 1/3''), (- 1, ''Retrying page 3 (attempt 1/1)...''),
       (100, ''Processed page 2/3'')]) = [33, 66, 100]
   \<and> sorted (filter (\<lambda>v. v \<noteq> - 1) (map fst
      [(- 1 :: int, ''Error on page 2, retrying (attempt 1/1)...''), (33, ''Processed page 3/3''),
       (66, ''Processed page 1/3''), (- 1, ''Retrying page 3 (attempt 1/1)...''),
       (100, ''Processed page 2/3'')]))
   \<and> last (filter (\<lambda>v. v \<noteq> - 1) (map fst
      [(- 1 :: int, ''Error on page 2, retrying (attempt 1/1)...''), (33, ''Processed page 3/3''),
       (66, ''Processed page 1/3''), (- 1, ''Retrying page 3 (attempt 1/1)...''),
       (100, ''Processed page 2/3'')])) = 100"
proof -
  let ?ws = "[(- 1, ''Error on page 2, retrying (attempt 1/1)...''),
              (- 1, ''Retrying page 3 (attempt 1/1)...'')] :: (int \<times> string) list"
  let ?t = "[(- 1, ''Error on page 2, retrying (attempt 1/1)...''), (33, ''Processed page 3/3''),
             (66, ''Processed page 1/3''), (- 1, ''Retrying page 3 (attempt 1/1)...''),
             (100, ''Processed page 2/3'')] :: (int \<times> string) list"
  have h1: "images demo_task \<noteq> []" by simp
  have h3: "set ?ws \<subseteq> set (worker_events demo_task demo_world)"
    unfolding demo_worker_events by simp
  have h4: "?t \<in> shuffles ?ws (progress_events demo_task demo_world [2, 0, 1])"
    unfolding demo_progress by (simp add: Cons_in_shuffles_iff)
  from progress_monotone [OF h1 demo_perm h3 h4] show ?thesis by simp
qed

subsection \<open>The formatter\<close>

text \<open>
  Claim C9.  The formatter renders the entries in their order in the list: the text of a
  succeeded entry as it is, and for a failed entry a marked block, in the style of the
  output format, that holds the 1-based page number \<open>index + 1\<close> and the error text;
  the blocks are joined by two newlines.  (The entries built by \<open>run\<close> carry the page
  number \<open>index + 1\<close>.)
\<close>

theorem format_marks_failures:
  assumes "\<forall>(idx, success, text, page_num) \<in> set results. page_num = idx + 1"
  shows "format_results (ProcessingTask_init imgs sys_p user_p par retr fmt) results
           = join [CHR 0x0A, CHR 0x0A]
               (map (\<lambda>(idx, success, text, page_num).
                      if success then text else error_text fmt (idx + 1) text) results)
       \<and> (\<exists>pre mid suf. pre \<noteq> [] \<and>
            (\<forall>page text. error_text fmt page text = pre @ str_nat page @ mid @ text @ suf))"
proof -
  let ?T = "ProcessingTask_init imgs sys_p user_p par retr fmt"
  have "map (\<lambda>(idx, success, text, page_num).
               if success then text else error_text fmt page_num text) results
          = map (\<lambda>(idx, success, text, page_num).
               if success then text else error_text fmt (idx + 1) text) results"
    using assms by (intro map_cong) auto
  then have first: "format_results ?T results
           = join [CHR 0x0A, CHR 0x0A]
               (map (\<lambda>(idx, success, text, page_num).
                      if success then text else error_text fmt (idx + 1) text) results)"
    by (simp only: format_results_init)
  have second: "\<exists>pre mid suf. pre \<noteq> [] \<and>
            (\<forall>page text. error_text fmt page text = pre @ str_nat page @ mid @ text @ suf)"
  proof (cases "fmt = ''md''")
    case True
    then show ?thesis
      by (intro exI [of _ "''> **Error processing page ''"]
            exI [of _ "'':**\<newline>>\<newline>> ```json\<newline>> ''"] exI [of _ "''\<newline>> ```''"])
         (simp add: error_text_def)
  next
    case False
    then show ?thesis
      by (intro exI [of _ "''--- Error processing page ''"]
            exI [of _ "'' ---\<newline>\<newline>''"] exI [of _ "''\<newline>\<newline>---''"])
         (simp add: error_text_def)
  qed
  from first second show ?thesis by blast
qed

theorem format_marks_failures_witness:
  "format_results demo_task (batch_result demo_task demo_world [2, 0, 1])
   = ''text\<newline>\<newline>text\<newline>\<newline>> **Error processing page 3:**\<newline>>\<newline>> ```json\<newline>> boom\<newline>> ```''"
proof -
  have h: "\<forall>(idx, success, text, page_num)
             \<in> set (batch_result demo_task demo_world [2, 0, 1]). page_num = idx + 1"
    using demo_perm by (rule batch_pages)
  from format_marks_failures
         [OF h, of "[''a.png'', ''b.png'', ''c.png'']" "''sys''" "''usr''" 2 1 "''md''"]
  have "format_results demo_task (batch_result demo_task demo_world [2, 0, 1])
        = join [CHR 0x0A, CHR 0x0A]
            (map (\<lambda>(idx, success, text, page_num).
                   if success then text else error_text ''md'' (idx + 1) text)
               (batch_result demo_task demo_world [2, 0, 1]))"
    unfolding demo_task_def [symmetric] by (rule conjunct1)
  then show ?thesis unfolding demo_batch demo_format .
qed


end
